theory Spec2Isabelle
  imports Main "HOL-Library.Multiset"
begin

section \<open>Data model\<close>

text \<open>
  \<^verbatim>\<open>type Suit = 'clubs' | 'diamonds' | 'hearts' | 'spades'\<close> and the \<^verbatim>\<open>Card\<close>
  interface of both \<^verbatim>\<open>src/src/App.tsx\<close> (lines 13-21) and \<^verbatim>\<open>src/verify_logic.ts\<close>
  (lines 3-11). The field \<^verbatim>\<open>id\<close> is called \<open>id_card\<close> and the field \<^verbatim>\<open>value\<close> is called
  \<open>value_card\<close>, since \<open>id\<close> is a HOL constant and \<open>value\<close> an Isabelle command. A
  \<^verbatim>\<open>CardValue\<close> is one of the numbers 1 to 13; it is an \<open>int\<close> here and the range is the
  predicate \<open>valid_card\<close>.
\<close>

datatype Suit = clubs | diamonds | hearts | spades

record Card =
  id_card :: string
  suit :: Suit
  value_card :: int
  displayValue :: string

text \<open>
  What a JavaScript \<^verbatim>\<open>throw\<close> becomes: \<open>Error msg\<close> is \<^verbatim>\<open>new Error(msg)\<close>, and
  \<open>TypeError\<close> is what reading a property of \<^verbatim>\<open>undefined\<close> raises.
\<close>

datatype js_error = Error string | TypeError

text \<open>
  The object \<^verbatim>\<open>{ indicator, hidden, codeCards }\<close> that the encoder returns. An element of
  \<^verbatim>\<open>codeCards\<close> is \<^verbatim>\<open>undefined\<close> (here \<open>None\<close>) when the destructuring
  \<^verbatim>\<open>[low, mid, high] = sortedRemaining\<close> reads past the end of the array.
\<close>

record Arrangement =
  indicator :: Card
  hidden :: Card
  codeCards :: "Card option list"

section \<open>JavaScript primitives\<close>

text \<open>
  The remainder operator \<^verbatim>\<open>%\<close> on integers: the result has the sign of the dividend.
\<close>

definition js_rem :: "int \<Rightarrow> int \<Rightarrow> int" where
  "js_rem a b = (if a < 0 then - ((- a) mod \<bar>b\<bar>) else a mod \<bar>b\<bar>)"

text \<open>
  Array destructuring \<^verbatim>\<open>const [x0, x1, x2] = xs\<close>: position \<open>i\<close> of the array, or
  \<^verbatim>\<open>undefined\<close> past its end.
\<close>

definition at_index :: "'a list \<Rightarrow> nat \<Rightarrow> 'a option" where
  "at_index xs i = (if i < length xs then Some (xs ! i) else None)"

definition at_index_opt :: "'a option list \<Rightarrow> nat \<Rightarrow> 'a option" where
  "at_index_opt xs i = (if i < length xs then xs ! i else None)"

text \<open>
  \<^verbatim>\<open>a.id === b.id\<close>: the left operand is read first, and reading \<^verbatim>\<open>.id\<close> of
  \<^verbatim>\<open>undefined\<close> throws.
\<close>

definition same_id :: "Card option \<Rightarrow> Card option \<Rightarrow> js_error + bool" where
  "same_id a b =
     (case a of None \<Rightarrow> Inl TypeError
      | Some x \<Rightarrow> (case b of None \<Rightarrow> Inl TypeError
                   | Some y \<Rightarrow> Inr (id_card x = id_card y)))"

text \<open>\<^verbatim>\<open>p && q\<close>: \<open>q\<close> is evaluated only when \<open>p\<close> is true.\<close>

definition js_and :: "js_error + bool \<Rightarrow> js_error + bool \<Rightarrow> js_error + bool" where
  "js_and p q = (case p of Inl e \<Rightarrow> Inl e | Inr t \<Rightarrow> (if t then q else Inr False))"

text \<open>\<^verbatim>\<open>if (c) t else e\<close> where evaluating the condition may throw.\<close>

definition js_if :: "js_error + bool \<Rightarrow> js_error + 'a \<Rightarrow> js_error + 'a \<Rightarrow> js_error + 'a" where
  "js_if c t e = (case c of Inl err \<Rightarrow> Inl err | Inr b \<Rightarrow> (if b then t else e))"

section \<open>Card ordering (\<^verbatim>\<open>src/verify_logic.ts\<close>, lines 13-16)\<close>

definition SUITS :: "Suit list" where
  "SUITS = [spades, hearts, clubs, diamonds]"

fun SUIT_ORDER :: "Suit \<Rightarrow> int" where
  "SUIT_ORDER clubs = 0"
| "SUIT_ORDER diamonds = 1"
| "SUIT_ORDER hearts = 2"
| "SUIT_ORDER spades = 3"

definition getCardRank :: "Card \<Rightarrow> int" where
  "getCardRank c = (value_card c - 1) * 4 + SUIT_ORDER (suit c)"

text \<open>
  \<^verbatim>\<open>[...xs].sort((a, b) => getCardRank(a) - getCardRank(b))\<close> on an array of cards. The
  sort of the language is stable, as \<open>sort_key\<close> is.
\<close>

definition sort_cards :: "Card list \<Rightarrow> Card list" where
  "sort_cards xs = sort_key getCardRank xs"

text \<open>
  The same call on an array that may hold \<^verbatim>\<open>undefined\<close>: the language sorts the defined
  elements with the comparator and puts every \<^verbatim>\<open>undefined\<close> after them.
\<close>

definition sort_cards_opt :: "Card option list \<Rightarrow> Card option list" where
  "sort_cards_opt xs =
     map Some (sort_cards (List.map_filter (\<lambda>x. x) xs)) @ filter (\<lambda>x. x = None) xs"

section \<open>The encoder of \<^verbatim>\<open>src/verify_logic.ts\<close> (lines 18-64)\<close>

text \<open>
  Lines 19-28. \<^verbatim>\<open>suitCounts[s]\<close> holds the cards of suit \<open>s\<close> in hand order;
  \<open>scan_suits\<close> is the loop over \<^verbatim>\<open>SUITS\<close> that stops at the first suit with two cards
  or more, and leaves \<^verbatim>\<open>sameSuitPair\<close> empty when there is none.
\<close>

definition suitCounts :: "Card list \<Rightarrow> Suit \<Rightarrow> Card list" where
  "suitCounts hand s = filter (\<lambda>c. suit c = s) hand"

fun scan_suits :: "Suit list \<Rightarrow> Card list \<Rightarrow> Card list" where
  "scan_suits [] hand = []"
| "scan_suits (s # ss) hand =
     (if length (suitCounts hand s) \<ge> 2 then take 2 (suitCounts hand s)
      else scan_suits ss hand)"

definition sameSuitPair :: "Card list \<Rightarrow> Card list" where
  "sameSuitPair hand = scan_suits SUITS hand"

text \<open>
  Lines 30-46: the two clock distances and the choice of \<^verbatim>\<open>indicator\<close>, \<^verbatim>\<open>hidden\<close>
  and \<^verbatim>\<open>offset\<close>, returned in this order. \<^verbatim>\<open>c1.value\<close> and \<^verbatim>\<open>c2.value\<close> throw when the
  pair is empty.
\<close>

definition dist :: "int \<Rightarrow> int \<Rightarrow> int" where
  "dist a b = js_rem (b - a + 13) 13"

definition choose_roles :: "Card option \<Rightarrow> Card option \<Rightarrow> js_error + (Card \<times> Card \<times> int)" where
  "choose_roles c1 c2 =
     (case c1 of None \<Rightarrow> Inl TypeError
      | Some a \<Rightarrow>
     (case c2 of None \<Rightarrow> Inl TypeError
      | Some b \<Rightarrow>
        (let v1 = value_card a; v2 = value_card b;
             dist1to2 = dist v1 v2;
             dist2to1 = dist v2 v1
         in if dist1to2 > 0 \<and> dist1to2 \<le> 6 then Inr (a, b, dist1to2)
            else Inr (b, a, dist2to1))))"

text \<open>Lines 52-61: the \<^verbatim>\<open>switch\<close> on \<^verbatim>\<open>offset\<close>.\<close>

definition permute :: "int \<Rightarrow> 'a \<Rightarrow> 'a \<Rightarrow> 'a \<Rightarrow> 'a list" where
  "permute offset low mid high =
     (if offset = 1 then [low, mid, high]
      else if offset = 2 then [low, high, mid]
      else if offset = 3 then [mid, low, high]
      else if offset = 4 then [mid, high, low]
      else if offset = 5 then [high, low, mid]
      else if offset = 6 then [high, mid, low]
      else [low, mid, high])"

text \<open>The roles the function computes (lines 19-46), with the local \<^verbatim>\<open>offset\<close>.\<close>

definition roles_of_hand :: "Card list \<Rightarrow> js_error + (Card \<times> Card \<times> int)" where
  "roles_of_hand hand =
     (let pair = sameSuitPair hand in choose_roles (at_index pair 0) (at_index pair 1))"

definition getFitchCheneyArrangement :: "Card list \<Rightarrow> js_error + Arrangement" where
  "getFitchCheneyArrangement hand =
     (case roles_of_hand hand of
        Inl e \<Rightarrow> Inl e
      | Inr (ind, hid, offset) \<Rightarrow>
        (let remaining = filter (\<lambda>c. id_card c \<noteq> id_card ind \<and> id_card c \<noteq> id_card hid) hand;
             sortedRemaining = sort_cards remaining;
             low = at_index sortedRemaining 0;
             mid = at_index sortedRemaining 1;
             high = at_index sortedRemaining 2
         in Inr \<lparr>indicator = ind, hidden = hid, codeCards = permute offset low mid high\<rparr>))"

section \<open>The decoder of \<^verbatim>\<open>src/verify_logic.ts\<close> (lines 66-83)\<close>

text \<open>
  Lines 68-79: the chain of comparisons that sets \<^verbatim>\<open>offset\<close>, which stays 0 when no
  branch is taken.
\<close>

definition decode_offset :: "Card option list \<Rightarrow> js_error + int" where
  "decode_offset cs =
     (let sorted = sort_cards_opt cs;
          L = at_index_opt sorted 0; M = at_index_opt sorted 1; H = at_index_opt sorted 2;
          c1 = at_index_opt cs 0; c2 = at_index_opt cs 1; c3 = at_index_opt cs 2
      in js_if (js_and (js_and (same_id c1 L) (same_id c2 M)) (same_id c3 H)) (Inr 1)
        (js_if (js_and (js_and (same_id c1 L) (same_id c2 H)) (same_id c3 M)) (Inr 2)
        (js_if (js_and (js_and (same_id c1 M) (same_id c2 L)) (same_id c3 H)) (Inr 3)
        (js_if (js_and (js_and (same_id c1 M) (same_id c2 H)) (same_id c3 L)) (Inr 4)
        (js_if (js_and (js_and (same_id c1 H) (same_id c2 L)) (same_id c3 M)) (Inr 5)
        (js_if (js_and (js_and (same_id c1 H) (same_id c2 M)) (same_id c3 L)) (Inr 6)
        (Inr 0)))))))"

text \<open>Lines 81-82: the card returned is the indicator with a new value and the id \<^verbatim>\<open>'predicted'\<close>.\<close>

definition decode :: "Card \<Rightarrow> Card option list \<Rightarrow> js_error + Card" where
  "decode ind cs =
     (case decode_offset cs of
        Inl e \<Rightarrow> Inl e
      | Inr offset \<Rightarrow>
        (let hiddenValue = js_rem (value_card ind + offset - 1) 13 + 1
         in Inr (ind\<lparr>value_card := hiddenValue, id_card := ''predicted''\<rparr>)))"

section \<open>The encoder of \<^verbatim>\<open>src/src/App.tsx\<close> (lines 24-109)\<close>

text \<open>
  The application declares its own \<^verbatim>\<open>SUITS\<close>, \<^verbatim>\<open>SUIT_ORDER\<close> and \<^verbatim>\<open>getCardRank\<close>
  (lines 24, 39-44 and 51) and its own \<^verbatim>\<open>getFitchCheneyArrangement\<close> (lines 53-109), which
  starts with a check of the number of cards. They are transcribed on their own, with the suffix
  \<open>_app\<close>.
\<close>

definition SUITS_app :: "Suit list" where
  "SUITS_app = [spades, hearts, clubs, diamonds]"

fun SUIT_ORDER_app :: "Suit \<Rightarrow> int" where
  "SUIT_ORDER_app clubs = 0"
| "SUIT_ORDER_app diamonds = 1"
| "SUIT_ORDER_app hearts = 2"
| "SUIT_ORDER_app spades = 3"

definition getCardRank_app :: "Card \<Rightarrow> int" where
  "getCardRank_app c = (value_card c - 1) * 4 + SUIT_ORDER_app (suit c)"

fun scan_suits_app :: "Suit list \<Rightarrow> Card list \<Rightarrow> Card list" where
  "scan_suits_app [] hand = []"
| "scan_suits_app (s # ss) hand =
     (if length (filter (\<lambda>c. suit c = s) hand) \<ge> 2 then take 2 (filter (\<lambda>c. suit c = s) hand)
      else scan_suits_app ss hand)"

definition getFitchCheneyArrangement_app :: "Card list \<Rightarrow> js_error + Arrangement" where
  "getFitchCheneyArrangement_app hand =
     (if length hand \<noteq> 5 then Inl (Error ''Need exactly 5 cards'')
      else
       (let pair = scan_suits_app SUITS_app hand in
        case at_index pair 0 of None \<Rightarrow> Inl TypeError
        | Some c1 \<Rightarrow>
       (case at_index pair 1 of None \<Rightarrow> Inl TypeError
        | Some c2 \<Rightarrow>
         (let v1 = value_card c1; v2 = value_card c2;
              dist1to2 = js_rem (v2 - v1 + 13) 13;
              dist2to1 = js_rem (v1 - v2 + 13) 13;
              (ind, hid, offset) =
                (if dist1to2 > 0 \<and> dist1to2 \<le> 6 then (c1, c2, dist1to2)
                 else (c2, c1, dist2to1));
              remaining = filter (\<lambda>c. id_card c \<noteq> id_card ind \<and> id_card c \<noteq> id_card hid) hand;
              sortedRemaining = sort_key getCardRank_app remaining;
              low = at_index sortedRemaining 0;
              mid = at_index sortedRemaining 1;
              high = at_index sortedRemaining 2
          in Inr \<lparr>indicator = ind, hidden = hid,
                  codeCards =
                    (if offset = 1 then [low, mid, high]
                     else if offset = 2 then [low, high, mid]
                     else if offset = 3 then [mid, low, high]
                     else if offset = 4 then [mid, high, low]
                     else if offset = 5 then [high, low, mid]
                     else if offset = 6 then [high, mid, low]
                     else [low, mid, high])\<rparr>))))"

text \<open>
  The deck the application builds (lines 180-198): for each suit of \<^verbatim>\<open>SUITS\<close> and each
  value from 1 to 13, a card whose id is the suit's name, a dash and the value in decimal.
  \<open>decimal\<close> is the template literal \<^verbatim>\<open>`${v}`\<close> for the values 0 to 99, of which the
  loop produces 1 to 13; \<open>face\<close> is \<^verbatim>\<open>displayValue\<close>, where the later of the four
  assignments wins.
\<close>

fun suit_name :: "Suit \<Rightarrow> string" where
  "suit_name clubs = ''clubs''"
| "suit_name diamonds = ''diamonds''"
| "suit_name hearts = ''hearts''"
| "suit_name spades = ''spades''"

definition digit :: "int \<Rightarrow> char" where
  "digit d = char_of (48 + d)"

definition decimal :: "int \<Rightarrow> string" where
  "decimal v = (if v < 10 then [digit v] else [digit (v div 10), digit (v mod 10)])"

definition face :: "int \<Rightarrow> string" where
  "face v = (if v = 13 then ''K'' else if v = 12 then ''Q'' else if v = 11 then ''J''
             else if v = 1 then ''A'' else decimal v)"

definition deck_card :: "Suit \<Rightarrow> int \<Rightarrow> Card" where
  "deck_card s v =
     \<lparr>id_card = suit_name s @ ''-'' @ decimal v, suit = s, value_card = v, displayValue = face v\<rparr>"

definition newDeck :: "Card list" where
  "newDeck = concat (map (\<lambda>s. map (deck_card s) [1..13]) SUITS_app)"

section \<open>Valid hands\<close>

text \<open>
  A card is valid when its value is a \<^verbatim>\<open>CardValue\<close>. A valid hand has five valid cards, no
  two with the same suit and value, and no two with the same \<^verbatim>\<open>id\<close>: the encoder tells cards
  apart by \<^verbatim>\<open>id\<close> (line 48 of \<^verbatim>\<open>verify_logic.ts\<close>), and both producers of cards in the
  repository (the deck above and \<^verbatim>\<open>randomCard\<close>) give every card an id of its own.
\<close>

definition valid_card :: "Card \<Rightarrow> bool" where
  "valid_card c = (1 \<le> value_card c \<and> value_card c \<le> 13)"

definition face_of :: "Card \<Rightarrow> Suit \<times> int" where
  "face_of c = (suit c, value_card c)"

definition valid_hand :: "Card list \<Rightarrow> bool" where
  "valid_hand hand =
     (length hand = 5 \<and> list_all valid_card hand \<and>
      distinct (map face_of hand) \<and> distinct (map id_card hand))"

section \<open>Concrete hands and code-card sequences\<close>

text \<open>Cards of the deck, in the order a caller hands them over.\<close>

definition exemplar_hand :: "Card list" where
  "exemplar_hand = [deck_card clubs 3, deck_card clubs 9, deck_card hearts 2,
                    deck_card spades 13, deck_card diamonds 7]"

definition wrap_hand :: "Card list" where
  "wrap_hand = [deck_card hearts 12, deck_card spades 2, deck_card hearts 3,
                deck_card diamonds 5, deck_card hearts 9]"

definition two_pair_hand :: "Card list" where
  "two_pair_hand = [deck_card diamonds 1, deck_card spades 5, deck_card diamonds 8,
                    deck_card spades 11, deck_card clubs 4]"

definition swap_hand :: "Card list" where
  "swap_hand = [deck_card spades 1, deck_card spades 9, deck_card hearts 4,
                deck_card clubs 6, deck_card diamonds 10]"

definition flush_hand :: "Card list" where
  "flush_hand = [deck_card hearts 13, deck_card hearts 1, deck_card hearts 5,
                 deck_card hearts 7, deck_card hearts 10]"

definition twos_hand :: "Card list" where
  "twos_hand = [deck_card clubs 2, deck_card diamonds 2, deck_card hearts 2,
                deck_card spades 2, deck_card clubs 13]"

definition duplicate_hand :: "Card list" where
  "duplicate_hand = [deck_card clubs 3, deck_card clubs 3, deck_card hearts 2,
                     deck_card spades 13, deck_card diamonds 7]"

definition four_hand :: "Card list" where
  "four_hand = [deck_card clubs 3, deck_card clubs 9, deck_card hearts 2, deck_card spades 13]"

definition six_hand :: "Card list" where
  "six_hand = [deck_card clubs 3, deck_card clubs 9, deck_card hearts 2,
               deck_card spades 13, deck_card diamonds 7, deck_card diamonds 1]"

definition overlap_code :: "Card list" where
  "overlap_code = [deck_card clubs 3, deck_card diamonds 7, deck_card hearts 2]"

definition long_code :: "Card list" where
  "long_code = [deck_card diamonds 7, deck_card hearts 2, deck_card spades 13, deck_card clubs 5]"

definition short_code :: "Card list" where
  "short_code = [deck_card diamonds 7, deck_card hearts 2]"

definition repeated_code :: "Card list" where
  "repeated_code = [deck_card diamonds 7, deck_card diamonds 7, deck_card hearts 2]"

definition unmatched_code :: "Card list" where
  "unmatched_code = [deck_card spades 13, deck_card spades 12, deck_card hearts 2,
                     deck_card hearts 3]"

section \<open>The card key\<close>

lemma SUIT_ORDER_range: "0 \<le> SUIT_ORDER s \<and> SUIT_ORDER s \<le> 3"
  by (cases s) simp_all

lemma SUIT_ORDER_inj: "SUIT_ORDER s = SUIT_ORDER t \<Longrightarrow> s = t"
  by (cases s; cases t) simp_all

lemma getCardRank_eq_iff:
  "getCardRank a = getCardRank b \<longleftrightarrow> suit a = suit b \<and> value_card a = value_card b"
proof
  assume eq: "getCardRank a = getCardRank b"
  have ra: "0 \<le> SUIT_ORDER (suit a) \<and> SUIT_ORDER (suit a) \<le> 3" by (rule SUIT_ORDER_range)
  have rb: "0 \<le> SUIT_ORDER (suit b) \<and> SUIT_ORDER (suit b) \<le> 3" by (rule SUIT_ORDER_range)
  from eq ra rb have v: "value_card a = value_card b"
    unfolding getCardRank_def by arith
  with eq have "SUIT_ORDER (suit a) = SUIT_ORDER (suit b)"
    unfolding getCardRank_def by simp
  then have "suit a = suit b" by (rule SUIT_ORDER_inj)
  with v show "suit a = suit b \<and> value_card a = value_card b" by simp
next
  assume "suit a = suit b \<and> value_card a = value_card b"
  then show "getCardRank a = getCardRank b" by (simp add: getCardRank_def)
qed

lemma getCardRank_less_iff:
  "getCardRank a < getCardRank b \<longleftrightarrow>
     value_card a < value_card b \<or>
     (value_card a = value_card b \<and> SUIT_ORDER (suit a) < SUIT_ORDER (suit b))"
proof -
  have ra: "0 \<le> SUIT_ORDER (suit a) \<and> SUIT_ORDER (suit a) \<le> 3" by (rule SUIT_ORDER_range)
  have rb: "0 \<le> SUIT_ORDER (suit b) \<and> SUIT_ORDER (suit b) \<le> 3" by (rule SUIT_ORDER_range)
  from ra rb show ?thesis unfolding getCardRank_def by arith
qed

section \<open>Clock arithmetic\<close>

lemma js_rem_small: "0 \<le> x \<Longrightarrow> x < 13 \<Longrightarrow> js_rem x 13 = x"
  by (simp add: js_rem_def)

lemma js_rem_wrap: "13 \<le> x \<Longrightarrow> x < 26 \<Longrightarrow> js_rem x 13 = x - 13"
proof -
  assume a: "13 \<le> x" "x < 26"
  have "js_rem x 13 = x mod 13" using a by (simp add: js_rem_def)
  also have "\<dots> = (x - 13) mod 13" by (simp add: mod_diff_right_eq [symmetric])
  also have "\<dots> = x - 13" using a by (intro mod_pos_pos_trivial) simp_all
  finally show ?thesis .
qed

lemma dist_cases:
  assumes "1 \<le> a" "a \<le> 13" "1 \<le> b" "b \<le> 13"
  shows "dist a b = (if a \<le> b then b - a else b - a + 13)"
proof (cases "a \<le> b")
  case True
  with assms have "js_rem (b - a + 13) 13 = b - a + 13 - 13"
    by (intro js_rem_wrap) simp_all
  with True show ?thesis by (simp add: dist_def)
next
  case False
  with assms have "js_rem (b - a + 13) 13 = b - a + 13"
    by (intro js_rem_small) simp_all
  with False show ?thesis by (simp add: dist_def)
qed

lemma clock_step:
  assumes "1 \<le> a" "a \<le> 13" "1 \<le> b" "b \<le> 13" "a \<noteq> b"
  shows "js_rem (a + dist a b - 1) 13 + 1 = b"
proof (cases "a \<le> b")
  case True
  with assms have "js_rem (a + (b - a) - 1) 13 = a + (b - a) - 1"
    by (intro js_rem_small) simp_all
  with True assms show ?thesis by (simp add: dist_cases)
next
  case False
  with assms have "js_rem (a + (b - a + 13) - 1) 13 = a + (b - a + 13) - 1 - 13"
    by (intro js_rem_wrap) simp_all
  with False assms show ?thesis by (simp add: dist_cases)
qed

lemma dist_one_direction:
  assumes "1 \<le> a" "a \<le> 13" "1 \<le> b" "b \<le> 13" "a \<noteq> b"
  shows "(1 \<le> dist a b \<and> dist a b \<le> 6) \<noteq> (1 \<le> dist b a \<and> dist b a \<le> 6)"
    and "dist a b + dist b a = 13"
  using assms by (auto simp: dist_cases)

lemma choose_roles_valid:
  assumes "valid_card a" "valid_card b" "value_card a \<noteq> value_card b"
  shows "\<exists>i h off. choose_roles (Some a) (Some b) = Inr (i, h, off) \<and>
           1 \<le> off \<and> off \<le> 6 \<and> ((i = a \<and> h = b) \<or> (i = b \<and> h = a)) \<and>
           js_rem (value_card i + off - 1) 13 + 1 = value_card h"
proof -
  define v1 where "v1 = value_card a"
  define v2 where "v2 = value_card b"
  have r: "1 \<le> v1" "v1 \<le> 13" "1 \<le> v2" "v2 \<le> 13" "v1 \<noteq> v2"
    using assms by (simp_all add: valid_card_def v1_def v2_def)
  have s12: "js_rem (v1 + dist v1 v2 - 1) 13 + 1 = v2"
    using r by (intro clock_step) simp_all
  have s21: "js_rem (v2 + dist v2 v1 - 1) 13 + 1 = v1"
    using r by (intro clock_step) simp_all
  show ?thesis
  proof (cases "0 < dist v1 v2 \<and> dist v1 v2 \<le> 6")
    case True
    with s12 show ?thesis
      by (simp add: choose_roles_def Let_def v1_def v2_def)
  next
    case False
    with dist_one_direction(1) [of v1 v2] r
    have o: "1 \<le> dist v2 v1 \<and> dist v2 v1 \<le> 6" by auto
    with False s21 show ?thesis
      by (auto simp: choose_roles_def Let_def v1_def v2_def)
  qed
qed

section \<open>The pair of one suit\<close>

lemma length_by_suit:
  "length hand = length (suitCounts hand spades) + length (suitCounts hand hearts) +
                 length (suitCounts hand clubs) + length (suitCounts hand diamonds)"
proof (induction hand)
  case Nil
  show ?case by (simp add: suitCounts_def)
next
  case (Cons c cs)
  then show ?case by (cases "suit c") (simp_all add: suitCounts_def)
qed

lemma pigeonhole:
  assumes "length hand = 5"
  shows "\<exists>s. 2 \<le> length (suitCounts hand s) \<and> sameSuitPair hand = take 2 (suitCounts hand s)"
proof -
  have "\<not> (length (suitCounts hand spades) < 2 \<and> length (suitCounts hand hearts) < 2 \<and>
            length (suitCounts hand clubs) < 2 \<and> length (suitCounts hand diamonds) < 2)"
    using assms length_by_suit [of hand] by arith
  then show ?thesis
    by (auto simp: sameSuitPair_def SUITS_def)
qed

lemma take2_of_long:
  assumes "2 \<le> length xs"
  shows "\<exists>a b ys. xs = a # b # ys \<and> take 2 xs = [a, b]"
proof (cases xs)
  case Nil
  with assms show ?thesis by simp
next
  case (Cons a as)
  with assms show ?thesis by (cases as) simp_all
qed

lemma pair_of_hand:
  assumes "length hand = 5" "distinct (map id_card hand)"
  shows "\<exists>a b. sameSuitPair hand = [a, b] \<and> suit a = suit b \<and> a \<in> set hand \<and> b \<in> set hand \<and>
           id_card a \<noteq> id_card b"
proof -
  from pigeonhole [OF assms(1)] obtain s where
    s: "2 \<le> length (suitCounts hand s)" "sameSuitPair hand = take 2 (suitCounts hand s)"
    by blast
  from take2_of_long [OF s(1)] obtain a b ys where
    ab: "suitCounts hand s = a # b # ys" "take 2 (suitCounts hand s) = [a, b]"
    by blast
  have "set (suitCounts hand s) \<subseteq> {c \<in> set hand. suit c = s}"
    by (auto simp: suitCounts_def)
  with ab(1) have mem: "a \<in> set hand" "b \<in> set hand" "suit a = s" "suit b = s"
    by auto
  have "distinct (map id_card (suitCounts hand s))"
    unfolding suitCounts_def using assms(2) by (rule distinct_map_filter)
  with ab(1) have "id_card a \<noteq> id_card b" by auto
  with s(2) ab(2) mem show ?thesis by auto
qed

section \<open>The remaining three cards\<close>

lemma filter_two_ids:
  assumes "distinct (map f xs)" "a \<in> set xs" "b \<in> set xs" "f a \<noteq> f b"
  shows "mset (filter (\<lambda>c. \<not> (f c \<noteq> f a \<and> f c \<noteq> f b)) xs) = {#a, b#}"
proof -
  have inj: "inj_on f (set xs)" and dx: "distinct xs"
    using assms(1) by (simp_all add: distinct_map)
  have "filter (\<lambda>c. \<not> (f c \<noteq> f a \<and> f c \<noteq> f b)) xs = filter (\<lambda>c. c = a \<or> c = b) xs"
    using inj assms(2,3) by (intro filter_cong refl) (auto dest: inj_onD)
  moreover have "mset (filter (\<lambda>c. c = a \<or> c = b) xs) = {#a, b#}"
  proof (rule multiset_eqI)
    fix x
    have "count (mset xs) x = (if x \<in> set xs then 1 else 0)"
      using dx by (simp add: distinct_count_atmost_1)
    then show "count (mset (filter (\<lambda>c. c = a \<or> c = b) xs)) x = count {#a, b#} x"
      using assms(2,3,4) by auto
  qed
  ultimately show ?thesis by simp
qed

lemma hand_split:
  assumes "distinct (map f xs)" "a \<in> set xs" "b \<in> set xs" "f a \<noteq> f b"
  shows "mset xs = {#a, b#} + mset (filter (\<lambda>c. f c \<noteq> f a \<and> f c \<noteq> f b) xs)"
proof -
  define P where "P = (\<lambda>c. f c \<noteq> f a \<and> f c \<noteq> f b)"
  have "mset xs = filter_mset P (mset xs) + filter_mset (\<lambda>c. \<not> P c) (mset xs)"
    by (rule multiset_partition)
  then have A: "mset xs = mset (filter (\<lambda>c. \<not> P c) xs) + mset (filter P xs)"
    by (simp only: mset_filter add.commute)
  have B: "mset (filter (\<lambda>c. \<not> P c) xs) = {#a, b#}"
    unfolding P_def using assms by (rule filter_two_ids)
  from A [unfolded B] show ?thesis unfolding P_def .
qed

lemma sorted_three:
  assumes "length xs = 3" "distinct (map k xs)"
  shows "\<exists>l m h. sort_key k xs = [l, m, h] \<and> k l < k m \<and> k m < k h \<and> mset [l, m, h] = mset xs"
proof -
  define ys where "ys = sort_key k xs"
  have len: "length ys = 3" using assms(1) by (simp add: ys_def)
  have srt: "sorted (map k ys)" by (simp add: ys_def)
  have ms: "mset ys = mset xs" by (simp add: ys_def)
  have "mset (map k ys) = mset (map k xs)" using ms by simp
  then have dis: "distinct (map k ys)" using assms(2) by (metis mset_eq_imp_distinct_iff)
  from len obtain l m h where ys: "ys = [l, m, h]"
    by (cases ys; cases "tl ys"; cases "tl (tl ys)") auto
  from srt dis ys have "k l < k m \<and> k m < k h" by (auto simp: less_le)
  with ys ms show ?thesis unfolding ys_def by auto
qed

section \<open>Decoding a permuted triple\<close>

lemma sort_cards_opt_defined:
  "sort_cards_opt [Some x, Some y, Some z] = map Some (sort_cards [x, y, z])"
  by (simp add: sort_cards_opt_def List.map_filter_simps)

lemma sort_cards_triple:
  assumes "getCardRank l < getCardRank m" "getCardRank m < getCardRank h"
  shows "sort_cards [l, m, h] = [l, m, h]" "sort_cards [l, h, m] = [l, m, h]"
        "sort_cards [m, l, h] = [l, m, h]" "sort_cards [m, h, l] = [l, m, h]"
        "sort_cards [h, l, m] = [l, m, h]" "sort_cards [h, m, l] = [l, m, h]"
  using assms by (simp_all add: sort_cards_def)

lemma decode_offset_permute:
  assumes k: "getCardRank l < getCardRank m" "getCardRank m < getCardRank h"
    and i: "id_card l \<noteq> id_card m" "id_card l \<noteq> id_card h" "id_card m \<noteq> id_card h"
    and o: "1 \<le> off" "off \<le> 6"
  shows "decode_offset (permute off (Some l) (Some m) (Some h)) = Inr off"
proof -
  note s = sort_cards_opt_defined sort_cards_triple [OF k]
  note d = decode_offset_def permute_def Let_def at_index_opt_def same_id_def js_and_def js_if_def
  from o have "off = 1 \<or> off = 2 \<or> off = 3 \<or> off = 4 \<or> off = 5 \<or> off = 6" by arith
  then show ?thesis
  proof (elim disjE)
    assume "off = 1" with i show ?thesis by (simp add: d s)
  next
    assume "off = 2" with i show ?thesis by (simp add: d s)
  next
    assume "off = 3" with i show ?thesis by (simp add: d s)
  next
    assume "off = 4" with i show ?thesis by (simp add: d s)
  next
    assume "off = 5" with i show ?thesis by (simp add: d s)
  next
    assume "off = 6" with i show ?thesis by (simp add: d s)
  qed
qed

section \<open>What the encoder returns on a valid hand\<close>

lemma encode_valid:
  assumes vh: "valid_hand hand"
  obtains c1 c2 ind hid off l m h where
    "sameSuitPair hand = [c1, c2]"
    "valid_card c1" "valid_card c2" "value_card c1 \<noteq> value_card c2"
    "roles_of_hand hand = Inr (ind, hid, off)"
    "getFitchCheneyArrangement hand =
       Inr \<lparr>indicator = ind, hidden = hid, codeCards = permute off (Some l) (Some m) (Some h)\<rparr>"
    "1 \<le> off" "off \<le> 6" "suit ind = suit hid"
    "js_rem (value_card ind + off - 1) 13 + 1 = value_card hid"
    "getCardRank l < getCardRank m" "getCardRank m < getCardRank h"
    "id_card l \<noteq> id_card m" "id_card l \<noteq> id_card h" "id_card m \<noteq> id_card h"
    "mset hand = {#ind, hid, l, m, h#}"
proof -
  from vh have len: "length hand = 5" and val: "\<forall>c \<in> set hand. valid_card c"
    and dface: "distinct (map face_of hand)" and did: "distinct (map id_card hand)"
    by (simp_all add: valid_hand_def list_all_iff)
  from dface have inj_face: "inj_on face_of (set hand)" by (simp add: distinct_map)
  from did have inj_id: "inj_on id_card (set hand)" by (simp add: distinct_map)
  from pair_of_hand [OF len did] obtain c1 c2 where
    p: "sameSuitPair hand = [c1, c2]" "suit c1 = suit c2" "c1 \<in> set hand" "c2 \<in> set hand"
       "id_card c1 \<noteq> id_card c2"
    by blast
  from p val have v12: "valid_card c1" "valid_card c2" by simp_all
  from p(5) have "c1 \<noteq> c2" by auto
  with inj_face p(3,4) have "face_of c1 \<noteq> face_of c2" by (auto dest: inj_onD)
  with p(2) have vne: "value_card c1 \<noteq> value_card c2" by (simp add: face_of_def)
  from choose_roles_valid [OF v12 vne] obtain ind hid off where
    r: "choose_roles (Some c1) (Some c2) = Inr (ind, hid, off)" "1 \<le> off" "off \<le> 6"
       "(ind = c1 \<and> hid = c2) \<or> (ind = c2 \<and> hid = c1)"
       "js_rem (value_card ind + off - 1) 13 + 1 = value_card hid"
    by blast
  from r(4) p have ih: "ind \<in> set hand" "hid \<in> set hand" "id_card ind \<noteq> id_card hid"
    "suit ind = suit hid" by auto
  have roles: "roles_of_hand hand = Inr (ind, hid, off)"
    using p(1) r(1) by (simp add: roles_of_hand_def at_index_def)
  define remaining where
    "remaining = filter (\<lambda>c. id_card c \<noteq> id_card ind \<and> id_card c \<noteq> id_card hid) hand"
  have split: "mset hand = {#ind, hid#} + mset remaining"
    unfolding remaining_def using did ih(1,2,3) by (rule hand_split)
  then have "size (mset hand) = size ({#ind, hid#} + mset remaining)" by simp
  with len have len3: "length remaining = 3" by simp
  have "inj_on getCardRank (set hand)"
  proof (rule inj_onI)
    fix x y assume "x \<in> set hand" "y \<in> set hand" "getCardRank x = getCardRank y"
    then have "x \<in> set hand" "y \<in> set hand" "face_of x = face_of y"
      by (simp_all add: getCardRank_eq_iff face_of_def)
    with inj_on_eq_iff [OF inj_face] show "x = y" by blast
  qed
  moreover from did have "distinct hand" by (simp add: distinct_map)
  ultimately have "distinct (map getCardRank hand)" by (simp add: distinct_map)
  then have dk: "distinct (map getCardRank remaining)"
    unfolding remaining_def by (rule distinct_map_filter)
  from sorted_three [OF len3 dk] obtain l m h where
    s: "sort_key getCardRank remaining = [l, m, h]" "getCardRank l < getCardRank m"
       "getCardRank m < getCardRank h" "mset [l, m, h] = mset remaining"
    by blast
  from s(4) have "set [l, m, h] = set remaining" by (rule mset_eq_setD)
  then have mem: "l \<in> set hand" "m \<in> set hand" "h \<in> set hand"
    by (auto simp: remaining_def)
  from s(2,3) have "l \<noteq> m" "l \<noteq> h" "m \<noteq> h" by auto
  with mem inj_id have ids: "id_card l \<noteq> id_card m" "id_card l \<noteq> id_card h"
    "id_card m \<noteq> id_card h" by (auto dest: inj_onD)
  have enc: "getFitchCheneyArrangement hand =
       Inr \<lparr>indicator = ind, hidden = hid, codeCards = permute off (Some l) (Some m) (Some h)\<rparr>"
    using roles s(1) len3
    by (simp add: getFitchCheneyArrangement_def Let_def sort_cards_def at_index_def
        remaining_def [symmetric])
  from split s(4) have "mset hand = {#ind, hid, l, m, h#}" by simp
  with p(1) v12 vne roles enc r(2,3,5) ih(4) s(2,3) ids show thesis
    by (rule_tac that)
qed

section \<open>The two copies of the encoder\<close>

lemma scan_suits_app_eq: "scan_suits_app ss hand = scan_suits ss hand"
  by (induction ss) (simp_all add: suitCounts_def)

lemma SUIT_ORDER_app_eq: "SUIT_ORDER_app s = SUIT_ORDER s"
  by (cases s) simp_all

lemma getCardRank_app_eq: "getCardRank_app = getCardRank"
  by (rule ext) (simp add: getCardRank_app_def getCardRank_def SUIT_ORDER_app_eq)

lemma app_eq_verify:
  assumes len: "length hand = 5"
  shows "getFitchCheneyArrangement_app hand = getFitchCheneyArrangement hand"
proof -
  define pair where "pair = sameSuitPair hand"
  have pa: "scan_suits_app SUITS_app hand = pair"
    by (simp add: pair_def sameSuitPair_def SUITS_app_def SUITS_def scan_suits_app_eq)
  have perm: "\<And>k (l :: Card option) m h.
      (if k = 1 then [l, m, h] else if k = 2 then [l, h, m] else if k = 3 then [m, l, h]
       else if k = 4 then [m, h, l] else if k = 5 then [h, l, m] else if k = 6 then [h, m, l]
       else [l, m, h]) = permute k l m h"
    by (simp only: permute_def)
  show ?thesis
  proof (cases "at_index pair 0")
    case None
    with len pa show ?thesis
      by (simp add: getFitchCheneyArrangement_app_def getFitchCheneyArrangement_def
          roles_of_hand_def choose_roles_def pair_def [symmetric])
  next
    case c1: (Some c1)
    show ?thesis
    proof (cases "at_index pair 1")
      case None
      with len pa c1 show ?thesis
        by (simp add: getFitchCheneyArrangement_app_def getFitchCheneyArrangement_def
            roles_of_hand_def choose_roles_def pair_def [symmetric])
    next
      case c2: (Some c2)
      from c2 have c2': "at_index pair (Suc 0) = Some c2" by simp
      define d12 where "d12 = js_rem (value_card c2 - value_card c1 + 13) 13"
      define d21 where "d21 = js_rem (value_card c1 - value_card c2 + 13) 13"
      show ?thesis
      proof (cases "0 < d12 \<and> d12 \<le> 6")
        case True
        then have r: "roles_of_hand hand = Inr (c1, c2, d12)"
          using c1 c2
          by (simp add: roles_of_hand_def choose_roles_def pair_def [symmetric] dist_def
              d12_def [symmetric])
        from True len show ?thesis
          unfolding getFitchCheneyArrangement_app_def getFitchCheneyArrangement_def r pa
          by (simp add: c1 c2 c2' d12_def [symmetric] d21_def [symmetric] sort_cards_def
              perm getCardRank_app_eq Let_def)
      next
        case False
        then have r: "roles_of_hand hand = Inr (c2, c1, d21)"
          using c1 c2
          by (auto simp: roles_of_hand_def choose_roles_def pair_def [symmetric] dist_def
              d12_def [symmetric] d21_def [symmetric])
        from False len show ?thesis
          unfolding getFitchCheneyArrangement_app_def getFitchCheneyArrangement_def r pa
          by (auto simp: c1 c2 c2' d12_def [symmetric] d21_def [symmetric] sort_cards_def
              perm getCardRank_app_eq Let_def)
      qed
    qed
  qed
qed

lemma mset_permute: "mset (permute off a b c) = {#a, b, c#}"
  by (simp add: permute_def)

section \<open>The decoder on arrays of cards\<close>

lemma sort_cards_opt_map_Some: "sort_cards_opt (map Some cs) = map Some (sort_cards cs)"
proof -
  have "List.map_filter (\<lambda>x. x) (map Some cs) = cs"
    by (induction cs) (simp_all add: List.map_filter_simps)
  moreover have "filter (\<lambda>x. x = None) (map Some cs) = []"
    by (induction cs) simp_all
  ultimately show ?thesis by (simp add: sort_cards_opt_def)
qed

lemma decode_offset_defined:
  assumes "at_index_opt (sort_cards_opt cs) 0 = Some L"
    "at_index_opt (sort_cards_opt cs) 1 = Some M"
    "at_index_opt (sort_cards_opt cs) 2 = Some H"
    "at_index_opt cs 0 = Some c1" "at_index_opt cs 1 = Some c2" "at_index_opt cs 2 = Some c3"
  shows "decode_offset cs =
    Inr (if id_card c1 = id_card L \<and> id_card c2 = id_card M \<and> id_card c3 = id_card H then 1
     else if id_card c1 = id_card L \<and> id_card c2 = id_card H \<and> id_card c3 = id_card M then 2
     else if id_card c1 = id_card M \<and> id_card c2 = id_card L \<and> id_card c3 = id_card H then 3
     else if id_card c1 = id_card M \<and> id_card c2 = id_card H \<and> id_card c3 = id_card L then 4
     else if id_card c1 = id_card H \<and> id_card c2 = id_card L \<and> id_card c3 = id_card M then 5
     else if id_card c1 = id_card H \<and> id_card c2 = id_card M \<and> id_card c3 = id_card L then 6
     else 0)"
  unfolding decode_offset_def Let_def assms same_id_def js_and_def js_if_def
  by simp

lemma at_index_opt_map_Some:
  "i < length xs \<Longrightarrow> at_index_opt (map Some xs) i = Some (xs ! i)"
  by (simp add: at_index_opt_def)

lemma decode_offset_long:
  assumes "3 \<le> length cs"
  shows "\<exists>off. decode_offset (map Some cs) = Inr off \<and> 0 \<le> off \<and> off \<le> 6"
proof -
  have len: "length (sort_cards cs) = length cs" by (simp add: sort_cards_def)
  have "decode_offset (map Some cs) = Inr
    (if id_card (cs ! 0) = id_card (sort_cards cs ! 0) \<and> id_card (cs ! 1) = id_card (sort_cards cs ! 1) \<and> id_card (cs ! 2) = id_card (sort_cards cs ! 2) then 1
     else if id_card (cs ! 0) = id_card (sort_cards cs ! 0) \<and> id_card (cs ! 1) = id_card (sort_cards cs ! 2) \<and> id_card (cs ! 2) = id_card (sort_cards cs ! 1) then 2
     else if id_card (cs ! 0) = id_card (sort_cards cs ! 1) \<and> id_card (cs ! 1) = id_card (sort_cards cs ! 0) \<and> id_card (cs ! 2) = id_card (sort_cards cs ! 2) then 3
     else if id_card (cs ! 0) = id_card (sort_cards cs ! 1) \<and> id_card (cs ! 1) = id_card (sort_cards cs ! 2) \<and> id_card (cs ! 2) = id_card (sort_cards cs ! 0) then 4
     else if id_card (cs ! 0) = id_card (sort_cards cs ! 2) \<and> id_card (cs ! 1) = id_card (sort_cards cs ! 0) \<and> id_card (cs ! 2) = id_card (sort_cards cs ! 1) then 5
     else if id_card (cs ! 0) = id_card (sort_cards cs ! 2) \<and> id_card (cs ! 1) = id_card (sort_cards cs ! 1) \<and> id_card (cs ! 2) = id_card (sort_cards cs ! 0) then 6
     else 0)"
  proof (rule decode_offset_defined)
    from assms have i: "0 < length cs" "1 < length cs" "2 < length cs" by arith+
    with len have j: "0 < length (sort_cards cs)" "1 < length (sort_cards cs)"
      "2 < length (sort_cards cs)" by simp_all
    show "at_index_opt (sort_cards_opt (map Some cs)) 0 = Some (sort_cards cs ! 0)"
      unfolding sort_cards_opt_map_Some using j(1) by (rule at_index_opt_map_Some)
    show "at_index_opt (sort_cards_opt (map Some cs)) 1 = Some (sort_cards cs ! 1)"
      unfolding sort_cards_opt_map_Some using j(2) by (rule at_index_opt_map_Some)
    show "at_index_opt (sort_cards_opt (map Some cs)) 2 = Some (sort_cards cs ! 2)"
      unfolding sort_cards_opt_map_Some using j(3) by (rule at_index_opt_map_Some)
    show "at_index_opt (map Some cs) 0 = Some (cs ! 0)"
      using i(1) by (rule at_index_opt_map_Some)
    show "at_index_opt (map Some cs) 1 = Some (cs ! 1)"
      using i(2) by (rule at_index_opt_map_Some)
    show "at_index_opt (map Some cs) 2 = Some (cs ! 2)"
      using i(3) by (rule at_index_opt_map_Some)
  qed
  then show ?thesis by simp
qed

lemma sort_three_cases:
  "sort_cards [a, b, c] \<in> {[a, b, c], [a, c, b], [b, a, c], [b, c, a], [c, a, b], [c, b, a]}"
  by (simp add: sort_cards_def)

lemma decode_offset_three:
  "\<exists>off. decode_offset [Some a, Some b, Some c] = Inr off \<and> 1 \<le> off \<and> off \<le> 6"
proof -
  obtain L M H where s: "sort_cards [a, b, c] = [L, M, H]"
    and p: "[L, M, H] \<in> {[a, b, c], [a, c, b], [b, a, c], [b, c, a], [c, a, b], [c, b, a]}"
    using sort_three_cases [of a b c] by auto
  have d: "decode_offset [Some a, Some b, Some c] =
    Inr (if id_card a = id_card L \<and> id_card b = id_card M \<and> id_card c = id_card H then 1
     else if id_card a = id_card L \<and> id_card b = id_card H \<and> id_card c = id_card M then 2
     else if id_card a = id_card M \<and> id_card b = id_card L \<and> id_card c = id_card H then 3
     else if id_card a = id_card M \<and> id_card b = id_card H \<and> id_card c = id_card L then 4
     else if id_card a = id_card H \<and> id_card b = id_card L \<and> id_card c = id_card M then 5
     else if id_card a = id_card H \<and> id_card b = id_card M \<and> id_card c = id_card L then 6
     else 0)"
    by (rule decode_offset_defined) (simp_all add: sort_cards_opt_defined s at_index_opt_def)
  from p show ?thesis unfolding d by auto
qed

lemma decode_offset_short:
  assumes "length cs < 3"
  shows "decode_offset (map Some cs) = Inl TypeError"
proof -
  from assms consider "cs = []" | a where "cs = [a]" | a b where "cs = [a, b]"
    by (cases cs; cases "tl cs"; cases "tl (tl cs)") auto
  then show ?thesis
  proof cases
    case 1
    then show ?thesis
      by (simp add: decode_offset_def sort_cards_opt_def sort_cards_def List.map_filter_simps
          Let_def at_index_opt_def same_id_def js_and_def js_if_def)
  next
    case 2
    then show ?thesis
      by (simp add: decode_offset_def sort_cards_opt_def sort_cards_def List.map_filter_simps
          Let_def at_index_opt_def same_id_def js_and_def js_if_def)
  next
    case 3
    then show ?thesis
      by (simp add: decode_offset_def sort_cards_opt_def sort_cards_def List.map_filter_simps
          Let_def at_index_opt_def same_id_def js_and_def js_if_def)
  qed
qed

section \<open>Hands taken from the deck\<close>

text \<open>
  Five different cards of the deck that the application builds form a valid hand: the ids of
  the deck are pairwise different, and so are its faces.
\<close>

lemma newDeck_facts:
  "distinct (map id_card newDeck)" "distinct (map face_of newDeck)" "list_all valid_card newDeck"
  by code_simp+

lemma deck_hand_valid:
  assumes "set hand \<subseteq> set newDeck" "distinct hand" "length hand = 5"
  shows "valid_hand hand"
proof -
  have "inj_on id_card (set newDeck)" "inj_on face_of (set newDeck)"
    using newDeck_facts(1,2) by (simp_all add: distinct_map)
  with assms(1) have "inj_on id_card (set hand)" "inj_on face_of (set hand)"
    by (auto intro: inj_on_subset)
  with assms(2) have "distinct (map id_card hand)" "distinct (map face_of hand)"
    by (simp_all add: distinct_map)
  moreover from assms(1) newDeck_facts(3) have "list_all valid_card hand"
    by (auto simp: list_all_iff)
  ultimately show ?thesis using assms(3) by (simp add: valid_hand_def)
qed

section \<open>The exemplar hand in any order\<close>

lemma valid_hand_mset:
  assumes "mset h = mset g" "valid_hand g"
  shows "valid_hand h"
proof -
  from assms(1) have "length h = length g" by (rule mset_eq_length)
  moreover from assms(1) have "set h = set g" by (rule mset_eq_setD)
  moreover from assms(1) have "mset (map face_of h) = mset (map face_of g)" by simp
  then have "distinct (map face_of h) = distinct (map face_of g)"
    by (rule mset_eq_imp_distinct_iff)
  moreover from assms(1) have "mset (map id_card h) = mset (map id_card g)" by simp
  then have "distinct (map id_card h) = distinct (map id_card g)"
    by (rule mset_eq_imp_distinct_iff)
  ultimately show ?thesis using assms(2) by (simp add: valid_hand_def list_all_iff)
qed

lemma exemplar_any_order:
  assumes ms: "mset h = mset exemplar_hand"
  shows "getFitchCheneyArrangement h =
     Inr \<lparr>indicator = deck_card clubs 3, hidden = deck_card clubs 9,
          codeCards = [Some (deck_card spades 13), Some (deck_card diamonds 7),
                       Some (deck_card hearts 2)]\<rparr>"
proof -
  have "valid_hand exemplar_hand" by code_simp
  with ms have v: "valid_hand h" by (rule valid_hand_mset)
  show ?thesis
  proof (rule encode_valid [OF v], goal_cases)
    case (1 c1 c2 ind hid off l m hh)
    note e = 1(6) and o = 1(7,8) and su = 1(9) and st = 1(10) and k = 1(11,12)
    have eq: "mset [ind, hid, l, m, hh] = mset exemplar_hand"
      using 1(16) ms by simp
    then have dis: "distinct [ind, hid, l, m, hh] = distinct exemplar_hand"
      by (rule mset_eq_imp_distinct_iff)
    have "distinct exemplar_hand" by code_simp
    with dis have d: "distinct [ind, hid, l, m, hh]" by simp
    from eq have "set [ind, hid, l, m, hh] = set exemplar_hand" by (rule mset_eq_setD)
    then have s: "{ind, hid, l, m, hh} =
        {deck_card clubs 3, deck_card clubs 9, deck_card hearts 2, deck_card spades 13,
         deck_card diamonds 7}"
      by (simp add: exemplar_hand_def)
    have su': "suit (deck_card clubs 3) = clubs" "suit (deck_card clubs 9) = clubs"
      "suit (deck_card hearts 2) = hearts" "suit (deck_card spades 13) = spades"
      "suit (deck_card diamonds 7) = diamonds"
      by (simp_all add: deck_card_def)
    have va: "value_card (deck_card clubs 3) = 3" "value_card (deck_card clubs 9) = 9"
      by (simp_all add: deck_card_def)
    have ke: "getCardRank (deck_card hearts 2) = 6" "getCardRank (deck_card spades 13) = 51"
      "getCardRank (deck_card diamonds 7) = 25"
      by (simp_all add: deck_card_def getCardRank_def)
    have "ind \<in> {ind, hid, l, m, hh}" "hid \<in> {ind, hid, l, m, hh}"
      "l \<in> {ind, hid, l, m, hh}" "m \<in> {ind, hid, l, m, hh}" "hh \<in> {ind, hid, l, m, hh}"
      by simp_all
    then have mem: "ind \<in> set exemplar_hand" "hid \<in> set exemplar_hand"
      "l \<in> set exemplar_hand" "m \<in> set exemplar_hand" "hh \<in> set exemplar_hand"
      unfolding s by (simp_all add: exemplar_hand_def)
    from mem(1,2) have "ind \<in> {deck_card clubs 3, deck_card clubs 9, deck_card hearts 2,
        deck_card spades 13, deck_card diamonds 7}"
      and "hid \<in> {deck_card clubs 3, deck_card clubs 9, deck_card hearts 2,
        deck_card spades 13, deck_card diamonds 7}" by (simp_all add: exemplar_hand_def)
    with su d have pr: "(ind = deck_card clubs 3 \<and> hid = deck_card clubs 9) \<or>
        (ind = deck_card clubs 9 \<and> hid = deck_card clubs 3)"
      by (auto simp: su')
    from o have oc: "off = 1 \<or> off = 2 \<or> off = 3 \<or> off = 4 \<or> off = 5 \<or> off = 6" by arith
    from pr st oc have io: "ind = deck_card clubs 3 \<and> hid = deck_card clubs 9 \<and> off = 6"
      by (auto simp: va js_rem_def)
    with d mem(3-5)
    have "l \<in> {deck_card hearts 2, deck_card spades 13, deck_card diamonds 7}"
      "m \<in> {deck_card hearts 2, deck_card spades 13, deck_card diamonds 7}"
      "hh \<in> {deck_card hearts 2, deck_card spades 13, deck_card diamonds 7}"
      by (auto simp: exemplar_hand_def)
    with k have "l = deck_card hearts 2 \<and> m = deck_card diamonds 7 \<and> hh = deck_card spades 13"
      by (auto simp: ke)
    with e io show ?case by (simp add: permute_def)
  qed
qed

section \<open>The claims\<close>

text \<open>
  C1 (round trip). For every valid hand of five pairwise different cards, both copies of the
  encoder return an arrangement, and decoding its indicator and code cards returns a card whose
  suit and value are those of the hidden card.
\<close>

theorem C1_round_trip:
  assumes "valid_hand hand"
  shows "\<exists>arr p. getFitchCheneyArrangement hand = Inr arr \<and>
           getFitchCheneyArrangement_app hand = Inr arr \<and>
           decode (indicator arr) (codeCards arr) = Inr p \<and>
           suit p = suit (hidden arr) \<and> value_card p = value_card (hidden arr)"
proof (rule encode_valid [OF assms], goal_cases)
  case (1 c1 c2 ind hid off l m h)
  from assms have len: "length hand = 5" by (simp add: valid_hand_def)
  note e = 1(6) and o = 1(7,8) and su = 1(9) and st = 1(10) and k = 1(11,12) and i = 1(13-15)
  have "decode_offset (permute off (Some l) (Some m) (Some h)) = Inr off"
    using k i o by (rule decode_offset_permute)
  then have "decode ind (permute off (Some l) (Some m) (Some h)) =
      Inr (ind\<lparr>value_card := value_card hid, id_card := ''predicted''\<rparr>)"
    using st by (simp add: decode_def)
  with e su app_eq_verify [OF len] show ?case by simp
qed

text \<open>C1 at a hand whose pair wraps around the clock (queen to three, offset 4).\<close>

theorem C1_round_trip_witness:
  "valid_hand wrap_hand \<and>
   (\<exists>arr p. getFitchCheneyArrangement wrap_hand = Inr arr \<and>
      getFitchCheneyArrangement_app wrap_hand = Inr arr \<and>
      decode (indicator arr) (codeCards arr) = Inr p \<and>
      suit p = suit (hidden arr) \<and> value_card p = value_card (hidden arr))"
proof -
  have v: "valid_hand wrap_hand" by code_simp
  from v C1_round_trip [OF v] show ?thesis by (rule conjI)
qed

text \<open>
  C2 (partition). For every valid hand, the indicator, the three code cards and the hidden
  card that the encoder returns are, as a multiset, exactly the cards of the hand; no code card
  is \<^verbatim>\<open>undefined\<close>.
\<close>

theorem C2_partition:
  assumes "valid_hand hand"
  shows "\<exists>arr. getFitchCheneyArrangement hand = Inr arr \<and>
           getFitchCheneyArrangement_app hand = Inr arr \<and>
           mset (Some (indicator arr) # codeCards arr @ [Some (hidden arr)]) = mset (map Some hand)"
proof (rule encode_valid [OF assms], goal_cases)
  case (1 c1 c2 ind hid off l m h)
  from assms have len: "length hand = 5" by (simp add: valid_hand_def)
  note e = 1(6) and ms = 1(16)
  have "mset (map Some hand) = image_mset Some (mset hand)" by simp
  also have "\<dots> = {#Some ind, Some hid, Some l, Some m, Some h#}" unfolding ms by simp
  finally have "mset (Some ind # permute off (Some l) (Some m) (Some h) @ [Some hid]) =
      mset (map Some hand)"
    by (simp add: mset_permute)
  with e app_eq_verify [OF len] show ?case by simp
qed

text \<open>C2 at a hand with two suits that hold a pair; the spades are scanned first.\<close>

theorem C2_partition_witness:
  "valid_hand two_pair_hand \<and>
   (\<exists>arr. getFitchCheneyArrangement two_pair_hand = Inr arr \<and>
      getFitchCheneyArrangement_app two_pair_hand = Inr arr \<and>
      mset (Some (indicator arr) # codeCards arr @ [Some (hidden arr)]) =
        mset (map Some two_pair_hand))"
proof -
  have v: "valid_hand two_pair_hand" by code_simp
  from v C2_partition [OF v] show ?thesis by (rule conjI)
qed

text \<open>
  C3 (offset range). For every valid hand, the scan finds a pair \<open>c1\<close>, \<open>c2\<close> (the same
  in both copies); exactly one of the two clock distances between their values lies in 1..6;
  the offset the encoder computes is the first distance when that one lies in 1..6 and the
  second otherwise, and lies in 1..6, so the \<^verbatim>\<open>default\<close> arm of the \<^verbatim>\<open>switch\<close> is not
  taken; and the offset the decoder reconstructs from the code cards is this offset, never 0 and
  never more than 6.
\<close>

theorem C3_offset_range:
  assumes "valid_hand hand"
  shows "\<exists>c1 c2 ind hid off arr.
           sameSuitPair hand = [c1, c2] \<and> scan_suits_app SUITS_app hand = [c1, c2] \<and>
           ((0 < dist (value_card c1) (value_card c2) \<and> dist (value_card c1) (value_card c2) \<le> 6)
              \<noteq> (1 \<le> dist (value_card c2) (value_card c1) \<and> dist (value_card c2) (value_card c1) \<le> 6)) \<and>
           roles_of_hand hand = Inr (ind, hid, off) \<and>
           off = (if 0 < dist (value_card c1) (value_card c2) \<and> dist (value_card c1) (value_card c2) \<le> 6
                  then dist (value_card c1) (value_card c2) else dist (value_card c2) (value_card c1)) \<and>
           1 \<le> off \<and> off \<le> 6 \<and>
           getFitchCheneyArrangement hand = Inr arr \<and>
           getFitchCheneyArrangement_app hand = Inr arr \<and>
           decode_offset (codeCards arr) = Inr off"
proof (rule encode_valid [OF assms], goal_cases)
  case (1 c1 c2 ind hid off l m h)
  from assms have len: "length hand = 5" by (simp add: valid_hand_def)
  note p = 1(1) and v = 1(2-4) and r = 1(5) and e = 1(6) and o = 1(7,8) and k = 1(11,12)
    and i = 1(13-15)
  have pa: "scan_suits_app SUITS_app hand = [c1, c2]"
    using p by (simp add: sameSuitPair_def SUITS_app_def SUITS_def scan_suits_app_eq)
  from v have rng: "1 \<le> value_card c1" "value_card c1 \<le> 13" "1 \<le> value_card c2"
    "value_card c2 \<le> 13" by (simp_all add: valid_card_def)
  from dist_one_direction(1) [OF rng v(3)]
  have one: "(0 < dist (value_card c1) (value_card c2) \<and> dist (value_card c1) (value_card c2) \<le> 6)
      \<noteq> (1 \<le> dist (value_card c2) (value_card c1) \<and> dist (value_card c2) (value_card c1) \<le> 6)"
    by auto
  from r p have offv: "off = (if 0 < dist (value_card c1) (value_card c2) \<and>
        dist (value_card c1) (value_card c2) \<le> 6
      then dist (value_card c1) (value_card c2) else dist (value_card c2) (value_card c1))"
    by (auto simp: roles_of_hand_def at_index_def choose_roles_def Let_def split: if_splits)
  have d: "decode_offset (permute off (Some l) (Some m) (Some h)) = Inr off"
    using k i o by (rule decode_offset_permute)
  define arr where "arr = \<lparr>indicator = ind, hidden = hid,
      codeCards = permute off (Some l) (Some m) (Some h)\<rparr>"
  have ev: "getFitchCheneyArrangement hand = Inr arr" using e by (simp add: arr_def)
  have ea: "getFitchCheneyArrangement_app hand = Inr arr"
    using ev app_eq_verify [OF len] by simp
  have da: "decode_offset (codeCards arr) = Inr off" using d by (simp add: arr_def)
  note o1 = o(1) and o2 = o(2)
  show ?case
    by (intro exI [of _ c1] exI [of _ c2] exI [of _ ind] exI [of _ hid] exI [of _ off]
        exI [of _ arr] conjI) (fact p pa one r offv o1 o2 ev ea da)+
qed

text \<open>C3 at a hand whose first distance is 8, so that the else branch gives the offset 5.\<close>

theorem C3_offset_range_witness:
  "valid_hand swap_hand \<and>
   (\<exists>c1 c2 ind hid off arr.
      sameSuitPair swap_hand = [c1, c2] \<and> scan_suits_app SUITS_app swap_hand = [c1, c2] \<and>
      ((0 < dist (value_card c1) (value_card c2) \<and> dist (value_card c1) (value_card c2) \<le> 6)
         \<noteq> (1 \<le> dist (value_card c2) (value_card c1) \<and> dist (value_card c2) (value_card c1) \<le> 6)) \<and>
      roles_of_hand swap_hand = Inr (ind, hid, off) \<and>
      off = (if 0 < dist (value_card c1) (value_card c2) \<and> dist (value_card c1) (value_card c2) \<le> 6
             then dist (value_card c1) (value_card c2) else dist (value_card c2) (value_card c1)) \<and>
      1 \<le> off \<and> off \<le> 6 \<and>
      getFitchCheneyArrangement swap_hand = Inr arr \<and>
      getFitchCheneyArrangement_app swap_hand = Inr arr \<and>
      decode_offset (codeCards arr) = Inr off)"
proof -
  have v: "valid_hand swap_hand" by code_simp
  from v C3_offset_range [OF v] show ?thesis by (rule conjI)
qed

text \<open>
  C4 (suit sharing). For every valid hand, the indicator and the hidden card that the encoder
  returns have the same suit.
\<close>

theorem C4_same_suit:
  assumes "valid_hand hand"
  shows "\<exists>arr. getFitchCheneyArrangement hand = Inr arr \<and>
           getFitchCheneyArrangement_app hand = Inr arr \<and>
           suit (indicator arr) = suit (hidden arr)"
proof (rule encode_valid [OF assms], goal_cases)
  case (1 c1 c2 ind hid off l m h)
  from assms have len: "length hand = 5" by (simp add: valid_hand_def)
  note e = 1(6) and su = 1(9)
  from e su app_eq_verify [OF len] show ?case by simp
qed

text \<open>C4 at a hand of five hearts.\<close>

theorem C4_same_suit_witness:
  "valid_hand flush_hand \<and>
   (\<exists>arr. getFitchCheneyArrangement flush_hand = Inr arr \<and>
      getFitchCheneyArrangement_app flush_hand = Inr arr \<and>
      suit (indicator arr) = suit (hidden arr))"
proof -
  have v: "valid_hand flush_hand" by code_simp
  from v C4_same_suit [OF v] show ?thesis by (rule conjI)
qed

text \<open>
  C5 (encoder errors), as the code has it. The encoder of the application, given a hand whose
  number of cards is not 5, throws \<^verbatim>\<open>Error("Need exactly 5 cards")\<close> before it computes
  anything, so there is no partial output. (Neither copy looks for duplicate cards, and the copy
  in \<^verbatim>\<open>verify_logic.ts\<close> has no check of the size: see the counterexample below.)
\<close>

theorem C5_hand_size_error:
  assumes "length hand \<noteq> 5"
  shows "getFitchCheneyArrangement_app hand = Inl (Error ''Need exactly 5 cards'')"
  using assms by (simp add: getFitchCheneyArrangement_app_def)

text \<open>C5 at a hand of four cards and at a hand of six cards.\<close>

theorem C5_hand_size_error_witness:
  "length four_hand \<noteq> 5 \<and> length six_hand \<noteq> 5 \<and>
   getFitchCheneyArrangement_app four_hand = Inl (Error ''Need exactly 5 cards'') \<and>
   getFitchCheneyArrangement_app six_hand = Inl (Error ''Need exactly 5 cards'')"
proof -
  have a: "length four_hand \<noteq> 5" by (simp add: four_hand_def)
  have b: "length six_hand \<noteq> 5" by (simp add: six_hand_def)
  from a b C5_hand_size_error [OF a] C5_hand_size_error [OF b] show ?thesis by simp
qed

text \<open>
  C5 as stated fails. A hand of five cards that holds the three of clubs twice is not rejected
  by either copy: the pair is the repeated card, the offset is 0, the \<^verbatim>\<open>default\<close> arm of
  the \<^verbatim>\<open>switch\<close> is taken and an arrangement is returned whose indicator and hidden card are
  the same card. The copy in \<^verbatim>\<open>verify_logic.ts\<close>, given four cards, returns an arrangement
  with an \<^verbatim>\<open>undefined\<close> code card.
\<close>

theorem C5_duplicate_counterexample:
  "length duplicate_hand = 5 \<and> \<not> distinct (map face_of duplicate_hand) \<and>
   getFitchCheneyArrangement_app duplicate_hand =
     Inr \<lparr>indicator = deck_card clubs 3, hidden = deck_card clubs 3,
          codeCards = [Some (deck_card hearts 2), Some (deck_card diamonds 7),
                       Some (deck_card spades 13)]\<rparr> \<and>
   getFitchCheneyArrangement duplicate_hand =
     Inr \<lparr>indicator = deck_card clubs 3, hidden = deck_card clubs 3,
          codeCards = [Some (deck_card hearts 2), Some (deck_card diamonds 7),
                       Some (deck_card spades 13)]\<rparr> \<and>
   length four_hand = 4 \<and>
   getFitchCheneyArrangement four_hand =
     Inr \<lparr>indicator = deck_card clubs 3, hidden = deck_card clubs 9,
          codeCards = [None, Some (deck_card spades 13), Some (deck_card hearts 2)]\<rparr>"
  by code_simp

text \<open>
  C6 (decoder errors), as the code has it. The decoder validates nothing. Given an array of
  three cards or more, whatever they are (repeated cards, the indicator itself, more than three
  cards), it raises no error and returns the indicator with the id \<^verbatim>\<open>'predicted'\<close> and the
  value \<^verbatim>\<open>(indicator.value + offset - 1) % 13 + 1\<close> for an offset from 0 to 6. Given fewer
  than three cards, it fails with the \<^verbatim>\<open>TypeError\<close> of reading \<^verbatim>\<open>.id\<close> of
  \<^verbatim>\<open>undefined\<close>.
\<close>

theorem C6_decode_unchecked:
  "(3 \<le> length cs \<longrightarrow>
      (\<exists>off. 0 \<le> off \<and> off \<le> 6 \<and>
         decode ind (map Some cs) =
           Inr (ind\<lparr>value_card := js_rem (value_card ind + off - 1) 13 + 1,
                    id_card := ''predicted''\<rparr>))) \<and>
   (length cs < 3 \<longrightarrow> decode ind (map Some cs) = Inl TypeError)"
proof (intro conjI impI)
  assume "3 \<le> length cs"
  from decode_offset_long [OF this] obtain off where
    "decode_offset (map Some cs) = Inr off" "0 \<le> off" "off \<le> 6" by blast
  then show "\<exists>off. 0 \<le> off \<and> off \<le> 6 \<and>
         decode ind (map Some cs) =
           Inr (ind\<lparr>value_card := js_rem (value_card ind + off - 1) 13 + 1,
                    id_card := ''predicted''\<rparr>)"
    by (intro exI [of _ off]) (simp add: decode_def)
next
  assume "length cs < 3"
  from decode_offset_short [OF this] show "decode ind (map Some cs) = Inl TypeError"
    by (simp add: decode_def)
qed

text \<open>C6 at an array of four cards and at an array of two cards.\<close>

theorem C6_decode_unchecked_witness:
  "3 \<le> length long_code \<and> length short_code < 3 \<and>
   (\<exists>off. 0 \<le> off \<and> off \<le> 6 \<and>
      decode (deck_card clubs 3) (map Some long_code) =
        Inr ((deck_card clubs 3)\<lparr>value_card :=
               js_rem (value_card (deck_card clubs 3) + off - 1) 13 + 1,
             id_card := ''predicted''\<rparr>)) \<and>
   decode (deck_card clubs 3) (map Some short_code) = Inl TypeError"
proof -
  have a: "3 \<le> length long_code" by (simp add: long_code_def)
  have b: "length short_code < 3" by (simp add: short_code_def)
  from a b C6_decode_unchecked [of long_code "deck_card clubs 3"]
    C6_decode_unchecked [of short_code "deck_card clubs 3"]
  show ?thesis by simp
qed

text \<open>
  C6 as stated fails: there is no \<^verbatim>\<open>InvalidPermutation\<close>. With the three of clubs as
  indicator, code cards that hold the indicator itself decode to the seven of clubs, and an
  array of four code cards decodes to the three of clubs; no error is raised.
\<close>

theorem C6_no_validation_counterexample:
  "length overlap_code = 3 \<and> deck_card clubs 3 \<in> set overlap_code \<and>
   decode (deck_card clubs 3) (map Some overlap_code) =
     Inr \<lparr>id_card = ''predicted'', suit = clubs, value_card = 7, displayValue = ''3''\<rparr> \<and>
   length long_code = 4 \<and>
   decode (deck_card clubs 3) (map Some long_code) =
     Inr \<lparr>id_card = ''predicted'', suit = clubs, value_card = 3, displayValue = ''3''\<rparr>"
  by code_simp

text \<open>
  C7 (card key). The key \<^verbatim>\<open>(value - 1) * 4 + SUIT_ORDER[suit]\<close>, in both files, with the
  suit priorities clubs 0, diamonds 1, hearts 2, spades 3: two cards have the same key exactly
  when they have the same suit and value; a key is smaller exactly when the value is smaller,
  or the values are equal and the suit priority is smaller; two cards of different faces are
  always ordered one way or the other; and the keys of the 52 cards of the deck are exactly the
  numbers 0 to 51.
\<close>

theorem C7_card_key:
  "(getCardRank a = getCardRank b \<longleftrightarrow> suit a = suit b \<and> value_card a = value_card b) \<and>
   (getCardRank a < getCardRank b \<longleftrightarrow>
      value_card a < value_card b \<or>
      (value_card a = value_card b \<and> SUIT_ORDER (suit a) < SUIT_ORDER (suit b))) \<and>
   (face_of a = face_of b \<or> getCardRank a < getCardRank b \<or> getCardRank b < getCardRank a) \<and>
   getCardRank_app a = getCardRank a \<and>
   map SUIT_ORDER [clubs, diamonds, hearts, spades] = [0, 1, 2, 3] \<and>
   length newDeck = 52 \<and> distinct (map face_of newDeck) \<and>
   sort (map getCardRank newDeck) = [0..51]"
proof -
  have tot: "face_of a = face_of b \<or> getCardRank a < getCardRank b \<or> getCardRank b < getCardRank a"
  proof (cases "getCardRank a = getCardRank b")
    case True
    then show ?thesis by (simp add: getCardRank_eq_iff face_of_def)
  next
    case False
    then show ?thesis by auto
  qed
  have deck: "length newDeck = 52" "distinct (map face_of newDeck)"
    "sort (map getCardRank newDeck) = [0..51]"
    by code_simp+
  have so: "map SUIT_ORDER [clubs, diamonds, hearts, spades] = [0, 1, 2, 3]" by simp
  have app: "getCardRank_app a = getCardRank a" by (simp add: getCardRank_app_eq)
  from getCardRank_eq_iff [of a b] getCardRank_less_iff [of a b] tot app so deck
  show ?thesis by (intro conjI)
qed

text \<open>
  C8 (exemplar). For the hand three of clubs, nine of clubs, two of hearts, king of spades,
  seven of diamonds: the pair is the two clubs, the distances are 6 from three to nine and 7
  from nine to three, the indicator is the three of clubs, the hidden card the nine of clubs
  and the offset 6; the other three cards sorted by key are the two of hearts, the seven of
  diamonds and the king of spades, so that the code cards are king, seven, two; and decoding
  them with the three of clubs gives a card of suit clubs and value 9. The arrangement is the
  same in whatever order the five cards are handed over.
\<close>

theorem C8_exemplar:
  "(mset h = mset exemplar_hand \<longrightarrow>
      getFitchCheneyArrangement h =
        Inr \<lparr>indicator = deck_card clubs 3, hidden = deck_card clubs 9,
             codeCards = [Some (deck_card spades 13), Some (deck_card diamonds 7),
                          Some (deck_card hearts 2)]\<rparr> \<and>
      getFitchCheneyArrangement_app h = getFitchCheneyArrangement h) \<and>
   map face_of exemplar_hand = [(clubs, 3), (clubs, 9), (hearts, 2), (spades, 13), (diamonds, 7)] \<and>
   sameSuitPair exemplar_hand = [deck_card clubs 3, deck_card clubs 9] \<and>
   dist 3 9 = 6 \<and> dist 9 3 = 7 \<and>
   roles_of_hand exemplar_hand = Inr (deck_card clubs 3, deck_card clubs 9, 6) \<and>
   sort_cards [deck_card hearts 2, deck_card spades 13, deck_card diamonds 7] =
     [deck_card hearts 2, deck_card diamonds 7, deck_card spades 13] \<and>
   getFitchCheneyArrangement exemplar_hand =
     Inr \<lparr>indicator = deck_card clubs 3, hidden = deck_card clubs 9,
          codeCards = [Some (deck_card spades 13), Some (deck_card diamonds 7),
                       Some (deck_card hearts 2)]\<rparr> \<and>
   decode (deck_card clubs 3)
       [Some (deck_card spades 13), Some (deck_card diamonds 7), Some (deck_card hearts 2)] =
     Inr \<lparr>id_card = ''predicted'', suit = clubs, value_card = 9, displayValue = ''3''\<rparr>"
proof -
  have any: "mset h = mset exemplar_hand \<longrightarrow>
      getFitchCheneyArrangement h =
        Inr \<lparr>indicator = deck_card clubs 3, hidden = deck_card clubs 9,
             codeCards = [Some (deck_card spades 13), Some (deck_card diamonds 7),
                          Some (deck_card hearts 2)]\<rparr> \<and>
      getFitchCheneyArrangement_app h = getFitchCheneyArrangement h"
  proof
    assume ms: "mset h = mset exemplar_hand"
    then have "length h = length exemplar_hand" by (rule mset_eq_length)
    then have "length h = 5" by (simp add: exemplar_hand_def)
    with exemplar_any_order [OF ms] app_eq_verify [of h]
    show "getFitchCheneyArrangement h =
        Inr \<lparr>indicator = deck_card clubs 3, hidden = deck_card clubs 9,
             codeCards = [Some (deck_card spades 13), Some (deck_card diamonds 7),
                          Some (deck_card hearts 2)]\<rparr> \<and>
      getFitchCheneyArrangement_app h = getFitchCheneyArrangement h"
      by simp
  qed
  have fixed:
    "map face_of exemplar_hand = [(clubs, 3), (clubs, 9), (hearts, 2), (spades, 13), (diamonds, 7)]"
    "sameSuitPair exemplar_hand = [deck_card clubs 3, deck_card clubs 9]"
    "dist 3 9 = 6" "dist 9 3 = 7"
    "roles_of_hand exemplar_hand = Inr (deck_card clubs 3, deck_card clubs 9, 6)"
    "sort_cards [deck_card hearts 2, deck_card spades 13, deck_card diamonds 7] =
       [deck_card hearts 2, deck_card diamonds 7, deck_card spades 13]"
    "getFitchCheneyArrangement exemplar_hand =
       Inr \<lparr>indicator = deck_card clubs 3, hidden = deck_card clubs 9,
            codeCards = [Some (deck_card spades 13), Some (deck_card diamonds 7),
                         Some (deck_card hearts 2)]\<rparr>"
    "decode (deck_card clubs 3)
         [Some (deck_card spades 13), Some (deck_card diamonds 7), Some (deck_card hearts 2)] =
       Inr \<lparr>id_card = ''predicted'', suit = clubs, value_card = 9, displayValue = ''3''\<rparr>"
    by code_simp+
  from any fixed show ?thesis by (intro conjI)
qed

text \<open>C8 at the hand handed over in reverse order.\<close>

theorem C8_exemplar_witness:
  "mset (rev exemplar_hand) = mset exemplar_hand \<and>
   getFitchCheneyArrangement (rev exemplar_hand) =
     Inr \<lparr>indicator = deck_card clubs 3, hidden = deck_card clubs 9,
          codeCards = [Some (deck_card spades 13), Some (deck_card diamonds 7),
                       Some (deck_card hearts 2)]\<rparr> \<and>
   getFitchCheneyArrangement_app (rev exemplar_hand) =
     getFitchCheneyArrangement (rev exemplar_hand)"
proof -
  have a: "mset (rev exemplar_hand) = mset exemplar_hand" by simp
  from a C8_exemplar [of "rev exemplar_hand"] show ?thesis by simp
qed

text \<open>
  C9 (the two copies). On every hand of exactly five cards the encoder of the application and
  the copy in \<^verbatim>\<open>verify_logic.ts\<close> compute the same result, and on every valid hand this
  result is an arrangement: the same indicator, hidden card and code cards.
\<close>

theorem C9_copies_agree:
  "(length hand = 5 \<longrightarrow>
      getFitchCheneyArrangement_app hand = getFitchCheneyArrangement hand) \<and>
   (valid_hand hand \<longrightarrow>
      (\<exists>arr. getFitchCheneyArrangement_app hand = Inr arr \<and>
             getFitchCheneyArrangement hand = Inr arr))"
proof (intro conjI impI)
  assume "length hand = 5"
  then show "getFitchCheneyArrangement_app hand = getFitchCheneyArrangement hand"
    by (rule app_eq_verify)
next
  assume v: "valid_hand hand"
  then have len: "length hand = 5" by (simp add: valid_hand_def)
  show "\<exists>arr. getFitchCheneyArrangement_app hand = Inr arr \<and>
             getFitchCheneyArrangement hand = Inr arr"
  proof (rule encode_valid [OF v], goal_cases)
    case (1 c1 c2 ind hid off l m h)
    from 1(6) app_eq_verify [OF len] show ?case by simp
  qed
qed

text \<open>C9 at a hand with the four twos and the king of clubs.\<close>

theorem C9_copies_agree_witness:
  "length twos_hand = 5 \<and> valid_hand twos_hand \<and>
   getFitchCheneyArrangement_app twos_hand = getFitchCheneyArrangement twos_hand \<and>
   (\<exists>arr. getFitchCheneyArrangement_app twos_hand = Inr arr \<and>
          getFitchCheneyArrangement twos_hand = Inr arr)"
proof -
  have a: "length twos_hand = 5" by (simp add: twos_hand_def)
  have v: "valid_hand twos_hand" by code_simp
  from a v C9_copies_agree [of twos_hand] show ?thesis by blast
qed

text \<open>
  C10 (unmatched order), as the code has it. An array of exactly three cards always matches
  one of the six comparisons, repeated cards included, so that the decoder finds an offset
  from 1 to 6 for it. The unmatched case is left to other arrays (those of more than three
  cards): whenever no comparison matches, the offset stays 0 and, for an indicator of value
  1 to 13, the decoder raises no error and returns the indicator with the id
  \<^verbatim>\<open>'predicted'\<close>, that is a card of the indicator's suit and the indicator's own value.
\<close>

theorem C10_unmatched_order:
  "(\<exists>off. decode_offset [Some a, Some b, Some c] = Inr off \<and> 1 \<le> off \<and> off \<le> 6) \<and>
   (decode_offset cs = Inr 0 \<longrightarrow> valid_card ind \<longrightarrow>
      decode ind cs = Inr (ind\<lparr>id_card := ''predicted''\<rparr>) \<and>
      suit (ind\<lparr>id_card := ''predicted''\<rparr>) = suit ind \<and>
      value_card (ind\<lparr>id_card := ''predicted''\<rparr>) = value_card ind)"
proof (intro conjI impI)
  show "\<exists>off. decode_offset [Some a, Some b, Some c] = Inr off \<and> 1 \<le> off \<and> off \<le> 6"
    by (rule decode_offset_three)
next
  assume z: "decode_offset cs = Inr 0" and v: "valid_card ind"
  from v have "js_rem (value_card ind + 0 - 1) 13 = value_card ind + 0 - 1"
    by (intro js_rem_small) (simp_all add: valid_card_def)
  with z show "decode ind cs = Inr (ind\<lparr>id_card := ''predicted''\<rparr>)"
    by (simp add: decode_def)
qed simp_all

text \<open>C10 at an array of four cards that matches no comparison.\<close>

theorem C10_unmatched_order_witness:
  "decode_offset (map Some unmatched_code) = Inr 0 \<and> valid_card (deck_card clubs 3) \<and>
   (\<exists>off. decode_offset [Some (deck_card diamonds 7), Some (deck_card diamonds 7),
       Some (deck_card hearts 2)] = Inr off \<and> 1 \<le> off \<and> off \<le> 6) \<and>
   decode (deck_card clubs 3) (map Some unmatched_code) =
     Inr ((deck_card clubs 3)\<lparr>id_card := ''predicted''\<rparr>)"
proof -
  have z: "decode_offset (map Some unmatched_code) = Inr 0" by code_simp
  have v: "valid_card (deck_card clubs 3)" by code_simp
  from z v C10_unmatched_order [of "deck_card diamonds 7" "deck_card diamonds 7"
      "deck_card hearts 2" "map Some unmatched_code" "deck_card clubs 3"]
  show ?thesis by simp
qed

text \<open>
  C10 as stated fails at its own example. The array seven of diamonds, seven of diamonds, two
  of hearts holds a repeated card and still matches the fourth comparison: with the three of
  clubs as indicator the decoder returns a card of value 7, not the indicator's value 3.
\<close>

theorem C10_repeated_cards_counterexample:
  "length repeated_code = 3 \<and> \<not> distinct repeated_code \<and>
   decode_offset (map Some repeated_code) = Inr 4 \<and>
   value_card (deck_card clubs 3) = 3 \<and>
   decode (deck_card clubs 3) (map Some repeated_code) =
     Inr \<lparr>id_card = ''predicted'', suit = clubs, value_card = 7, displayValue = ''3''\<rparr>"
  by code_simp

end
